theory Spec2Isabelle
  imports Main "HOL-Library.AList" "HOL-Library.Char_ord" "HOL-Library.List_Lexorder"
begin

section \<open>Values and errors\<close>

text \<open>
  Go's \<^verbatim>\<open>interface{}\<close> values that a parser hands back as link candidates. Only the
  dynamic type matters to the code (\<^verbatim>\<open>value.(string)\<close>), so the model is a tagged union.
\<close>

datatype val = VString string | VInt int | VBool bool | VNil | VList "val list"

text \<open>
  Go \<^verbatim>\<open>error\<close> values. The first group is built in \<^verbatim>\<open>cli/build.go\<close>; \<open>ErrInvalidFormat\<close>
  is \<^verbatim>\<open>parser.ErrInvalidFormat\<close>; \<open>ErrWrapped\<close> is an error that wraps another one
  (\<^verbatim>\<open>%w\<close>, visible to \<^verbatim>\<open>errors.As\<close>); \<open>ErrOther\<close> is any other error of a collaborator;
  the last group is the error taxonomy of the graph and the resolution engine.
\<close>

datatype error =
    ErrExpectingOneArgument
  | ErrWorkspaceDirectory string error
  | ErrDestinationMustBeSet
  | ErrLinkNotString string
  | ErrInvalidFormat string
  | ErrWrapped string error
  | ErrOther string
  | ErrDuplicateNode string
  | ErrNodeNotFound string
  | ErrSelfReference string
  | ErrCycleDetected "string list"
  | ErrUnresolvedDependency string string

text \<open>\<^verbatim>\<open>errors.As(err, &perr)\<close> with \<^verbatim>\<open>perr := &parser.ErrInvalidFormat{}\<close>: walks the chain of
  wrapped errors looking for one of that type.\<close>

fun errors_As_ErrInvalidFormat :: "error \<Rightarrow> bool" where
  "errors_As_ErrInvalidFormat (ErrInvalidFormat f) = True"
| "errors_As_ErrInvalidFormat (ErrWrapped m e) = errors_As_ErrInvalidFormat e"
| "errors_As_ErrInvalidFormat e = False"

section \<open>The build command (\<^verbatim>\<open>cli/build.go\<close>)\<close>

subsection \<open>Options\<close>

record BuildOptions =
  Destination :: string
  RootDir :: string
  Insecure :: bool
  PlainHTTP :: bool
  Configs :: "string list"
  Output :: string
  Push :: bool

text \<open>\<^verbatim>\<open>Complete\<close> has a pointer receiver: it returns the error and the options as they are
  after the call.\<close>

definition Complete :: "BuildOptions \<Rightarrow> string list \<Rightarrow> error option \<times> BuildOptions" where
  "Complete opts args =
     (if length args < 1 then (Some ErrExpectingOneArgument, opts)
      else
        let opts1 = opts\<lparr>RootDir := args ! 0\<rparr>;
            opts2 = (if Output opts1 = '''' then opts1\<lparr>Output := ''client-workspace''\<rparr> else opts1)
        in (None, opts2))"

text \<open>\<^verbatim>\<open>Validate\<close> asks the file system (\<^verbatim>\<open>os.Stat\<close>), which is a parameter here: \<open>stat p\<close>
  is the error of \<^verbatim>\<open>os.Stat(p)\<close>, if any.\<close>

definition Validate :: "(string \<Rightarrow> error option) \<Rightarrow> BuildOptions \<Rightarrow> error option" where
  "Validate stat opts =
     (case stat (RootDir opts) of
        Some err \<Rightarrow> Some (ErrWorkspaceDirectory (RootDir opts) err)
      | None \<Rightarrow>
          if Push opts \<and> Destination opts = '''' then Some ErrDestinationMustBeSet
          else None)"

subsection \<open>The graph as \<^verbatim>\<open>Run\<close> uses it\<close>

text \<open>The link attributes, with the fields that \<^verbatim>\<open>TestProperties_MarshalJSON\<close> shows.\<close>

record link_attributes =
  RegistryHint :: string
  NamespaceHint :: string
  Transitive :: bool

text \<open>
  Modelled from the spec: the graph package is not part of the sources at hand; \<^verbatim>\<open>Run\<close>
  shows the \<open>Nodes\<close> map of a graph, \<^verbatim>\<open>graph.NewGraph\<close> and the call of \<^verbatim>\<open>AddEdge\<close>. Section 3:
  an edge is a directed pair of Names with its link properties; \<open>Nodes\<close> maps a Name to its
  node, \<open>Edges\<close> a Name to its outgoing edges.

  Go maps are association lists with distinct keys; the order of the list stands for the
  order in which \<^verbatim>\<open>range\<close> happens to iterate. The graph is polymorphic in the node type.
\<close>

record edge =
  From :: string
  To :: string
  LinkProperties :: link_attributes

record 'n graph =
  Nodes :: "(string \<times> 'n) list"
  Edges :: "(string \<times> edge list) list"

definition NewGraph :: "'n graph" where
  "NewGraph = \<lparr>Nodes = [], Edges = []\<rparr>"

definition node_names :: "'n graph \<Rightarrow> string set" where
  "node_names g = fst ` set (Nodes g)"

definition has_node :: "'n graph \<Rightarrow> string \<Rightarrow> bool" where
  "has_node g n = (map_of (Nodes g) n \<noteq> None)"

definition out_edges :: "'n graph \<Rightarrow> string \<Rightarrow> edge list" where
  "out_edges g n = (case map_of (Edges g) n of None \<Rightarrow> [] | Some es \<Rightarrow> es)"

text \<open>The keys of a map in ascending (bytewise lexicographic) order, each once.\<close>

definition sorted_keys :: "(string \<times> 'v) list \<Rightarrow> string list" where
  "sorted_keys m = sort (remdups (map fst m))"

text \<open>The node of \<^verbatim>\<open>cli/build.go\<close>: \<^verbatim>\<open>graph.NewNode(path)\<close> has the Name and nothing else.\<close>

record 't node =
  Name :: string
  Template :: "'t option"
  Links :: "(string \<times> val) list"

definition NewNode :: "string \<Rightarrow> 't node" where
  "NewNode path = \<lparr>Name = path, Template = None, Links = []\<rparr>"

subsection \<open>The path-membership predicate\<close>

text \<open>\<open>fileIndex\<close> is the \<^verbatim>\<open>map[string]struct{}\<close> filled by the first walk, as the list of its
  keys.\<close>

definition tFunc :: "string list \<Rightarrow> val \<Rightarrow> bool" where
  "tFunc fileIndex v =
     (case v of
        VString stringValue \<Rightarrow> stringValue \<in> set fileIndex
      | _ \<Rightarrow> False)"

subsection \<open>Adding the nodes\<close>

text \<open>
  A parser, after \<^verbatim>\<open>p.AddFuncs(tFunc)\<close>, is its \<^verbatim>\<open>GetLinkableData\<close>: from the predicate and
  the bytes to the template and the links, or an error.
\<close>

type_synonym 't parser = "(val \<Rightarrow> bool) \<Rightarrow> string \<Rightarrow> error + ('t \<times> (string \<times> val) list)"

text \<open>
  The body of the loop over \<open>fileIndex\<close>. \<open>readObject\<close> is \<^verbatim>\<open>userSpace.ReadObject\<close>,
  \<open>byContentType\<close> is \<^verbatim>\<open>parser.ByContentType\<close>.
\<close>

definition add_node ::
  "(string \<Rightarrow> error + string) \<Rightarrow> (string \<Rightarrow> string \<Rightarrow> error + 't parser) \<Rightarrow> string list \<Rightarrow>
   't node graph \<Rightarrow> string \<Rightarrow> error + 't node graph" where
  "add_node readObject byContentType fileIndex g path =
     (let node = NewNode path in
      case readObject path of
        Inl err \<Rightarrow> Inl err
      | Inr buf \<Rightarrow>
          (case byContentType path buf of
             Inr p \<Rightarrow>
               (case p (tFunc fileIndex) buf of
                  Inl err \<Rightarrow> Inl err
                | Inr (t, ls) \<Rightarrow>
                    Inr (g\<lparr>Nodes := AList.update path (node\<lparr>Template := Some t, Links := ls\<rparr>) (Nodes g)\<rparr>))
           | Inl err \<Rightarrow>
               if \<not> errors_As_ErrInvalidFormat err then Inl err
               else Inr (g\<lparr>Nodes := AList.update path node (Nodes g)\<rparr>)))"

fun add_nodes ::
  "(string \<Rightarrow> error + string) \<Rightarrow> (string \<Rightarrow> string \<Rightarrow> error + 't parser) \<Rightarrow> string list \<Rightarrow>
   't node graph \<Rightarrow> string list \<Rightarrow> error + 't node graph" where
  "add_nodes readObject byContentType fileIndex g [] = Inr g"
| "add_nodes readObject byContentType fileIndex g (path # paths) =
     (case add_node readObject byContentType fileIndex g path of
        Inl err \<Rightarrow> Inl err
      | Inr g' \<Rightarrow> add_nodes readObject byContentType fileIndex g' paths)"

subsection \<open>Adding the edges\<close>

text \<open>
  The loops over \<open>g.Nodes\<close> and over each node's \<open>Links\<close>. \<open>addEdge\<close> is \<^verbatim>\<open>g.AddEdge\<close>, which
  returns its error and leaves the graph as it is after the call.
\<close>

fun link_node ::
  "('n graph \<Rightarrow> string \<Rightarrow> string \<Rightarrow> error option \<times> 'n graph) \<Rightarrow> 'n graph \<Rightarrow> string \<Rightarrow>
   (string \<times> val) list \<Rightarrow> error + 'n graph" where
  "link_node addEdge g name [] = Inr g"
| "link_node addEdge g name ((link, data) # rest) =
     (case data of
        VString fpath \<Rightarrow>
          (case addEdge g name fpath of
             (Some err, g') \<Rightarrow> Inl err
           | (None, g') \<Rightarrow> link_node addEdge g' name rest)
      | _ \<Rightarrow> Inl (ErrLinkNotString link))"

fun link_nodes ::
  "('t node graph \<Rightarrow> string \<Rightarrow> string \<Rightarrow> error option \<times> 't node graph) \<Rightarrow> 't node graph \<Rightarrow>
   't node list \<Rightarrow> error + 't node graph" where
  "link_nodes addEdge g [] = Inr g"
| "link_nodes addEdge g (node # nodes) =
     (case link_node addEdge g (Name node) (Links node) of
        Inl err \<Rightarrow> Inl err
      | Inr g' \<Rightarrow> link_nodes addEdge g' nodes)"

text \<open>
  The graph construction of \<^verbatim>\<open>Run\<close>: the nodes of all indexed files, then the edges of all
  their links. What follows it in \<^verbatim>\<open>Run\<close> (rendering and publishing) is the work of the
  collaborators.
\<close>

definition build_graph ::
  "(string \<Rightarrow> error + string) \<Rightarrow> (string \<Rightarrow> string \<Rightarrow> error + 't parser) \<Rightarrow>
   ('t node graph \<Rightarrow> string \<Rightarrow> string \<Rightarrow> error option \<times> 't node graph) \<Rightarrow> string list \<Rightarrow>
   error + 't node graph" where
  "build_graph readObject byContentType addEdge fileIndex =
     (case add_nodes readObject byContentType fileIndex NewGraph fileIndex of
        Inl err \<Rightarrow> Inl err
      | Inr g \<Rightarrow> link_nodes addEdge g (map snd (Nodes g)))"

section \<open>The content link graph\<close>

text \<open>
  Modelled from the spec: \<^verbatim>\<open>AddEdge\<close> is called by \<^verbatim>\<open>cli/build.go\<close> but its body is not
  part of the sources at hand. Section 4.3: it fails with \<open>ErrNodeNotFound\<close> if either
  endpoint is absent, fails with \<open>ErrSelfReference\<close> if \<open>from = to\<close>, and otherwise appends
  the edge. It returns its error together with the graph as it is after the call.
\<close>

definition AddEdge ::
  "'n graph \<Rightarrow> string \<Rightarrow> string \<Rightarrow> link_attributes \<Rightarrow> error option \<times> 'n graph" where
  "AddEdge g from to linkProps =
     (if \<not> has_node g from then (Some (ErrNodeNotFound from), g)
      else if \<not> has_node g to then (Some (ErrNodeNotFound to), g)
      else if from = to then (Some (ErrSelfReference from), g)
      else (None,
            g\<lparr>Edges := AList.update from
                 (out_edges g from @ [\<lparr>From = from, To = to, LinkProperties = linkProps\<rparr>])
                 (Edges g)\<rparr>))"

text \<open>
  Modelled from the spec: \<^verbatim>\<open>TopologicalOrder\<close> is not part of the sources at hand. Section
  4.3: a depth-first traversal with a three-colour marking (unvisited, in progress, done);
  meeting a node that is in progress is a cycle, reported with \<open>ErrCycleDetected\<close> and the
  members of the cycle; ties are broken by ascending Name order: the traversal starts from
  the node names in ascending order and descends into the targets of a node in ascending
  order. A name met during the traversal that is not a node gives \<open>ErrNodeNotFound\<close> (the
  missing-node error of section 4.4). The traversal does not change the graph.

  The recursion is written with an explicit work list: \<open>Enter n\<close> asks for a visit of \<open>n\<close>,
  \<open>Leave n\<close> marks the end of the visit of \<open>n\<close>, once all its targets are done. The nodes
  in progress are those whose \<open>Leave\<close> is pending, the innermost first.
\<close>

datatype color = Unvisited | InProgress | Done

datatype work = Enter string | Leave string

definition targets :: "'n graph \<Rightarrow> string \<Rightarrow> string list" where
  "targets g n = sort (remdups (map To (out_edges g n)))"

fun in_progress :: "work list \<Rightarrow> string list" where
  "in_progress [] = []"
| "in_progress (Enter n # work) = in_progress work"
| "in_progress (Leave n # work) = n # in_progress work"

definition cycle_members :: "string \<Rightarrow> work list \<Rightarrow> string list" where
  "cycle_members n work = n # rev (takeWhile (\<lambda>m. m \<noteq> n) (in_progress work))"

definition unvisited :: "'n graph \<Rightarrow> (string \<Rightarrow> color) \<Rightarrow> string set" where
  "unvisited g colors = {n \<in> node_names g. colors n = Unvisited}"

function dfs :: "'n graph \<Rightarrow> work list \<Rightarrow> (string \<Rightarrow> color) \<Rightarrow> string list \<Rightarrow> error + string list" where
  "dfs g [] colors order = Inr order"
| "dfs g (Leave n # work) colors order = dfs g work (colors(n := Done)) (order @ [n])"
| "dfs g (Enter n # work) colors order =
     (case colors n of
        Done \<Rightarrow> dfs g work colors order
      | InProgress \<Rightarrow> Inl (ErrCycleDetected (cycle_members n work))
      | Unvisited \<Rightarrow>
          if \<not> has_node g n then Inl (ErrNodeNotFound n)
          else dfs g (map Enter (targets g n) @ Leave n # work) (colors(n := InProgress)) order)"
  by pat_completeness auto
termination
proof (relation "inv_image (less_than <*lex*> less_than)
         (\<lambda>(g, work, colors, order). (card (unvisited g colors), length work))", goal_cases)
  case 1
  show ?case by (intro wf_inv_image wf_lex_prod wf_less_than)
next
  case (2 g n work colors order)
  have "unvisited g (colors(n := Done)) \<subseteq> unvisited g colors"
    by (auto simp: unvisited_def)
  moreover have "finite (unvisited g colors)"
    by (simp add: unvisited_def node_names_def)
  ultimately have "card (unvisited g (colors(n := Done))) \<le> card (unvisited g colors)"
    by (rule card_mono[rotated])
  then show ?case by auto
next
  case (3 g n work colors order)
  then have "n \<in> node_names g"
    by (auto simp: has_node_def node_names_def dest: map_of_SomeD intro: rev_image_eqI)
  then have "n \<in> unvisited g colors" using 3 by (simp add: unvisited_def)
  moreover have "unvisited g (colors(n := InProgress)) \<subseteq> unvisited g colors - {n}"
    by (auto simp: unvisited_def)
  moreover have "finite (unvisited g colors)"
    by (simp add: unvisited_def node_names_def)
  ultimately have "card (unvisited g (colors(n := InProgress))) < card (unvisited g colors)"
    by (metis card_Diff1_less card_mono finite_Diff le_less_trans)
  then show ?case by simp
next
  case (4 g n work colors order)
  show ?case by simp
qed

definition TopologicalOrder :: "'n graph \<Rightarrow> error + string list" where
  "TopologicalOrder g = dfs g (map Enter (sorted_keys (Nodes g))) (\<lambda>n. Unvisited) []"

section \<open>Attribute sets and Properties\<close>

datatype json =
    JNull
  | JBool bool
  | JInt int
  | JString string
  | JArray "json list"
  | JObject "(string \<times> json) list"

text \<open>
  Modelled from the spec: the attribute kinds of section 4.1 (string, int, bool and lists
  of them; the float kind is left out) and the JSON each one serializes to. An
  attribute set serializes as an object with its keys in ascending order, as in the
  expected output of \<^verbatim>\<open>TestProperties_MarshalJSON\<close>.
\<close>

datatype attribute =
    AString string
  | AInt int
  | ABool bool
  | AList "attribute list"

fun attribute_json :: "attribute \<Rightarrow> json" where
  "attribute_json (AString s) = JString s"
| "attribute_json (AInt i) = JInt i"
| "attribute_json (ABool b) = JBool b"
| "attribute_json (AList xs) = JArray (map attribute_json xs)"

type_synonym attribute_set = "(string \<times> attribute) list"

definition attribute_set_json :: "attribute_set \<Rightarrow> json" where
  "attribute_set_json s =
     JObject (map (\<lambda>k. (k, attribute_json (the (map_of s k)))) (sorted_keys s))"

text \<open>The component fields that the test expects under \<open>core-descriptor\<close>; a slice is
  \<open>None\<close> when it is nil.\<close>

record descriptor_attributes =
  ComponentID :: string
  ComponentName :: string
  ComponentVersion :: string
  ComponentType :: string
  FoundBy :: string
  Locations :: "string list option"
  Licenses :: "string list option"
  Language :: string
  CPEs :: "string list option"
  PURL :: string

record Properties =
  Link :: "link_attributes option"
  Descriptor :: "descriptor_attributes option"
  Others :: "(string \<times> attribute_set) list"

definition zero_link_attributes :: link_attributes where
  "zero_link_attributes = \<lparr>RegistryHint = '''', NamespaceHint = '''', Transitive = False\<rparr>"

definition zero_descriptor_attributes :: descriptor_attributes where
  "zero_descriptor_attributes =
     \<lparr>ComponentID = '''', ComponentName = '''', ComponentVersion = '''', ComponentType = '''',
      FoundBy = '''', Locations = None, Licenses = None, Language = '''', CPEs = None,
      PURL = ''''\<rparr>"

definition strings_json :: "string list option \<Rightarrow> json" where
  "strings_json xs = (case xs of None \<Rightarrow> JNull | Some ys \<Rightarrow> JArray (map JString ys))"

definition link_attributes_json :: "link_attributes \<Rightarrow> json" where
  "link_attributes_json l =
     JObject [(''registryHint'', JString (RegistryHint l)),
              (''namespaceHint'', JString (NamespaceHint l)),
              (''transitive'', JBool (Transitive l))]"

definition descriptor_attributes_json :: "descriptor_attributes \<Rightarrow> json" where
  "descriptor_attributes_json d =
     JObject [(''id'', JString (ComponentID d)),
              (''name'', JString (ComponentName d)),
              (''version'', JString (ComponentVersion d)),
              (''type'', JString (ComponentType d)),
              (''foundBy'', JString (FoundBy d)),
              (''locations'', strings_json (Locations d)),
              (''licenses'', strings_json (Licenses d)),
              (''language'', JString (Language d)),
              (''cpes'', strings_json (CPEs d)),
              (''purl'', JString (PURL d))]"

text \<open>
  Modelled from the spec: \<^verbatim>\<open>Properties.MarshalJSON\<close> is exercised by
  \<^verbatim>\<open>TestProperties_MarshalJSON\<close> but its body is not part of the sources at hand. Section
  4.2: an object with the keys \<open>core-descriptor\<close>, \<open>core-link\<close>, then each entry of the
  other attribute sets in ascending order of its name; absent link or descriptor attributes
  emit their zero-value object.
\<close>

definition MarshalJSON :: "Properties \<Rightarrow> json" where
  "MarshalJSON p =
     JObject
       ((''core-descriptor'',
           descriptor_attributes_json
             (case Descriptor p of None \<Rightarrow> zero_descriptor_attributes | Some d \<Rightarrow> d)) #
        (''core-link'',
           link_attributes_json (case Link p of None \<Rightarrow> zero_link_attributes | Some l \<Rightarrow> l)) #
        map (\<lambda>k. (k, attribute_set_json (the (map_of (Others p) k)))) (sorted_keys (Others p)))"

fun object_keys :: "json \<Rightarrow> string list" where
  "object_keys (JObject kvs) = map fst kvs"
| "object_keys j = []"

fun object_get :: "json \<Rightarrow> string \<Rightarrow> json option" where
  "object_get (JObject kvs) k = map_of kvs k"
| "object_get j k = None"

section \<open>The resolution engine\<close>

text \<open>
  Modelled from the spec: \<^verbatim>\<open>Resolve\<close> and the types around it are not part of the sources
  at hand. Section 3: a Descriptor is the digest of the resolved content, its size, its
  media type and the annotations serialized from the node's Properties; a node of the
  engine has, besides its Name and Links, its raw content and its Properties. The digest
  function, the media type inference, the encoding of a target Descriptor (with the link
  attributes of the edges to that target) and the replacement of a placeholder in the
  content are the engine's parameters.
\<close>

record descriptor =
  Digest :: string
  Size :: nat
  MediaType :: string
  Annotations :: json

record 't content_node = "'t node" +
  RawContent :: string
  NodeProperties :: Properties

record engine =
  digest :: "string \<Rightarrow> string"
  media_type :: "string \<Rightarrow> string \<Rightarrow> string"
  encode :: "descriptor \<Rightarrow> link_attributes list \<Rightarrow> string"
  substitute :: "string \<Rightarrow> string \<Rightarrow> string \<Rightarrow> string \<Rightarrow> string"

record resolution =
  Descriptors :: "(string \<times> descriptor) list"
  ResolvedContent :: "(string \<times> string) list"

text \<open>
  Modelled from the spec, section 4.4. \<open>Resolve\<close> computes the topological order and
  propagates its error unchanged. Then, for each Name in that order, every entry of the
  node's Links whose value is the Name of an already resolved Descriptor has its
  placeholder replaced in the content by the encoding of that Descriptor; other entries
  leave the content as it is. The spec names no order for the entries of a node: they are
  taken in the order of the association list, which stands for the iteration order of the
  map. A target of an outgoing edge without a Descriptor at that point is
  \<open>ErrUnresolvedDependency\<close>. The node's own Descriptor is computed from the final content
  and recorded under its Name. The result holds the Descriptors and the resolved contents,
  both in build order.
\<close>

definition link_props :: "'n graph \<Rightarrow> string \<Rightarrow> string \<Rightarrow> link_attributes list" where
  "link_props g name target =
     map LinkProperties (filter (\<lambda>e. To e = target) (out_edges g name))"

fun substitute_links ::
  "engine \<Rightarrow> 'n graph \<Rightarrow> string \<Rightarrow> (string \<times> descriptor) list \<Rightarrow> (string \<times> val) list \<Rightarrow>
   string \<Rightarrow> string" where
  "substitute_links eng g name descs [] content = content"
| "substitute_links eng g name descs ((var, v) # rest) content =
     substitute_links eng g name descs rest
       (case v of
          VString target \<Rightarrow>
            (case map_of descs target of
               Some d \<Rightarrow> substitute eng var target (encode eng d (link_props g name target)) content
             | None \<Rightarrow> content)
        | _ \<Rightarrow> content)"

definition resolve_node ::
  "engine \<Rightarrow> 't content_node graph \<Rightarrow> (string \<times> descriptor) list \<Rightarrow> string \<Rightarrow>
   error + (string \<times> descriptor)" where
  "resolve_node eng g descs name =
     (case map_of (Nodes g) name of
        None \<Rightarrow> Inl (ErrNodeNotFound name)
      | Some node \<Rightarrow>
          (case filter (\<lambda>t. map_of descs t = None) (targets g name) of
             t # ts \<Rightarrow> Inl (ErrUnresolvedDependency name t)
           | [] \<Rightarrow>
               let content = substitute_links eng g name descs (Links node)
                               (RawContent node)
               in Inr (content,
                       \<lparr>Digest = digest eng content, Size = length content,
                        MediaType = media_type eng name content,
                        Annotations = MarshalJSON (NodeProperties node)\<rparr>)))"

fun resolve_nodes ::
  "engine \<Rightarrow> 't content_node graph \<Rightarrow> resolution \<Rightarrow> string list \<Rightarrow> error + resolution" where
  "resolve_nodes eng g res [] = Inr res"
| "resolve_nodes eng g res (name # names) =
     (case resolve_node eng g (Descriptors res) name of
        Inl err \<Rightarrow> Inl err
      | Inr (content, d) \<Rightarrow>
          resolve_nodes eng g
            \<lparr>Descriptors = Descriptors res @ [(name, d)],
             ResolvedContent = ResolvedContent res @ [(name, content)]\<rparr> names)"

definition Resolve :: "engine \<Rightarrow> 't content_node graph \<Rightarrow> error + resolution" where
  "Resolve eng g =
     (case TopologicalOrder g of
        Inl err \<Rightarrow> Inl err
      | Inr order \<Rightarrow> resolve_nodes eng g \<lparr>Descriptors = [], ResolvedContent = []\<rparr> order)"

section \<open>Notions used in the statements\<close>

text \<open>
  The edge relation of a graph: \<open>(a, b)\<close> when an edge stored under \<open>a\<close> has the target
  \<open>b\<close>. The invariant of section 3 of the spec: both ends of every edge are nodes
  (\<open>AddEdge\<close> keeps it). \<open>index_of\<close> is the position of a Name in a list. A list is
  topological for a relation when the target of every edge that starts in the list is in
  the list, at a smaller index. A cycle is a non-empty list of Names in which each one has
  an edge to the next one and the last one has an edge to the first one.
\<close>

definition edge_rel :: "'n graph \<Rightarrow> (string \<times> string) set" where
  "edge_rel g = {(a, b). \<exists>e \<in> set (out_edges g a). To e = b}"

definition graph_inv :: "'n graph \<Rightarrow> bool" where
  "graph_inv g = (\<forall>(a, b) \<in> edge_rel g. a \<in> node_names g \<and> b \<in> node_names g)"

fun index_of :: "string list \<Rightarrow> string \<Rightarrow> nat" where
  "index_of [] x = 0"
| "index_of (y # ys) x = (if x = y then 0 else Suc (index_of ys x))"

definition topological :: "(string \<times> string) set \<Rightarrow> string list \<Rightarrow> bool" where
  "topological E order =
     (\<forall>(a, b) \<in> E. a \<in> set order \<longrightarrow> b \<in> set order \<and> index_of order b < index_of order a)"

definition is_cycle :: "(string \<times> string) set \<Rightarrow> string list \<Rightarrow> bool" where
  "is_cycle E ns = (ns \<noteq> [] \<and> successively (\<lambda>a b. (a, b) \<in> E) ns \<and> (last ns, hd ns) \<in> E)"

definition topological_order_of :: "'n graph \<Rightarrow> string list \<Rightarrow> bool" where
  "topological_order_of g order =
     (distinct order \<and> set order = node_names g \<and> topological (edge_rel g) order)"

section \<open>Invariants of the traversal\<close>

text \<open>
  \<open>leaves_ok\<close>: every target of a node whose \<open>Leave\<close> is pending is done, or is entered or
  left earlier in the work list. \<open>parents_ok\<close>: every item that lies above a pending
  \<open>Leave\<close> is a target of the innermost node in progress below it, so the nodes in progress
  form a path. \<open>entered\<close>: the names with a pending \<open>Enter\<close>. \<open>root_entries\<close>: the pending
  \<open>Enter\<close> items below every \<open>Leave\<close>, which are the start nodes not yet reached.
\<close>

fun leaves_ok :: "(string \<times> string) set \<Rightarrow> (string \<Rightarrow> color) \<Rightarrow> string set \<Rightarrow> work list \<Rightarrow> bool" where
  "leaves_ok E colors seen [] = True"
| "leaves_ok E colors seen (Enter t # work) = leaves_ok E colors (insert t seen) work"
| "leaves_ok E colors seen (Leave n # work) =
     ((\<forall>t. (n, t) \<in> E \<longrightarrow> colors t = Done \<or> t \<in> seen) \<and> leaves_ok E colors (insert n seen) work)"

definition under_top :: "(string \<times> string) set \<Rightarrow> work list \<Rightarrow> string \<Rightarrow> bool" where
  "under_top E work t = (case in_progress work of [] \<Rightarrow> True | n # ns \<Rightarrow> (n, t) \<in> E)"

fun parents_ok :: "(string \<times> string) set \<Rightarrow> work list \<Rightarrow> bool" where
  "parents_ok E [] = True"
| "parents_ok E (Enter t # work) = (under_top E work t \<and> parents_ok E work)"
| "parents_ok E (Leave t # work) = (under_top E work t \<and> parents_ok E work)"

fun entered :: "work list \<Rightarrow> string set" where
  "entered [] = {}"
| "entered (Enter t # work) = insert t (entered work)"
| "entered (Leave t # work) = entered work"

definition dfs_inv :: "'n graph \<Rightarrow> work list \<Rightarrow> (string \<Rightarrow> color) \<Rightarrow> string list \<Rightarrow> bool" where
  "dfs_inv g work colors order =
     ((\<forall>n. colors n = InProgress \<longleftrightarrow> n \<in> set (in_progress work)) \<and>
      (\<forall>n. colors n = Done \<longleftrightarrow> n \<in> set order) \<and>
      distinct order \<and> distinct (in_progress work) \<and>
      set order \<subseteq> node_names g \<and> set (in_progress work) \<subseteq> node_names g \<and>
      entered work \<subseteq> node_names g \<and>
      (\<forall>n \<in> node_names g. colors n = Unvisited \<longrightarrow> n \<in> entered work) \<and>
      topological (edge_rel g) order \<and>
      leaves_ok (edge_rel g) colors {} work \<and>
      parents_ok (edge_rel g) work)"



section \<open>Fixtures\<close>

text \<open>Collaborators and values used to run the definitions on concrete inputs.\<close>

definition read_braces :: "string \<Rightarrow> error + string" where
  "read_braces path = Inr ''{}''"

definition parser_rejecting :: "unit parser" where
  "parser_rejecting isLink buf = Inl (ErrInvalidFormat ''a.json'')"

definition select_rejecting_parser :: "string \<Rightarrow> string \<Rightarrow> error + unit parser" where
  "select_rejecting_parser path buf = Inr parser_rejecting"

definition select_nothing :: "string \<Rightarrow> string \<Rightarrow> error + unit parser" where
  "select_nothing path buf =
     (if path = ''a.bin'' then Inl (ErrInvalidFormat path) else Inl (ErrOther ''boom''))"


definition graph_ab :: "unit node graph" where
  "graph_ab =
     \<lparr>Nodes = [(''a'', \<lparr>Name = ''a'', Template = None, Links = [(''x'', VString ''b'')]\<rparr>),
               (''b'', NewNode ''b'')],
      Edges = []\<rparr>"

definition test_props :: Properties where
  "test_props =
     \<lparr>Link = Some \<lparr>RegistryHint = ''test'', NamespaceHint = ''namespace'', Transitive = False\<rparr>,
      Descriptor = Some (zero_descriptor_attributes\<lparr>ComponentID := ''id''\<rparr>),
      Others = [(''test'', [(''name'', AString ''test''), (''size'', AInt 2)])]\<rparr>"

definition empty_props :: Properties where
  "empty_props = \<lparr>Link = None, Descriptor = None, Others = [(''b'', []), (''a'', [])]\<rparr>"

fun replace_first :: "string \<Rightarrow> string \<Rightarrow> string \<Rightarrow> string" where
  "replace_first p r [] = []"
| "replace_first p r (c # cs) =
     (if take (length p) (c # cs) = p then r @ drop (length p) (c # cs)
      else c # replace_first p r cs)"

definition test_digest :: "string \<Rightarrow> string" where
  "test_digest content = ''sha:'' @ rev content"

definition test_media_type :: "string \<Rightarrow> string \<Rightarrow> string" where
  "test_media_type name content = ''text/plain''"

definition test_encode :: "descriptor \<Rightarrow> link_attributes list \<Rightarrow> string" where
  "test_encode d ls = ''<'' @ Digest d @ ''>''"

definition test_substitute :: "string \<Rightarrow> string \<Rightarrow> string \<Rightarrow> string \<Rightarrow> string" where
  "test_substitute var placeholder encoding content = replace_first placeholder encoding content"

definition test_engine :: engine where
  "test_engine = \<lparr>digest = test_digest, media_type = test_media_type, encode = test_encode,
                   substitute = test_substitute\<rparr>"

definition no_props :: Properties where
  "no_props = \<lparr>Link = None, Descriptor = None, Others = []\<rparr>"

definition content_of :: "string \<Rightarrow> (string \<times> val) list \<Rightarrow> string \<Rightarrow> unit content_node" where
  "content_of name links raw =
     \<lparr>Name = name, Template = None, Links = links, RawContent = raw, NodeProperties = no_props\<rparr>"

definition edge_to :: "string \<Rightarrow> string \<Rightarrow> edge" where
  "edge_to from to = \<lparr>From = from, To = to, LinkProperties = zero_link_attributes\<rparr>"

definition graph_chain :: "unit content_node graph" where
  "graph_chain =
     \<lparr>Nodes = [(''b'', content_of ''b'' [(''dep'', VString ''c'')] ''see c''),
               (''a'', content_of ''a'' [(''dep'', VString ''b''), (''n'', VInt 1)] ''see b''),
               (''c'', content_of ''c'' [] ''leaf'')],
      Edges = [(''a'', [edge_to ''a'' ''b'']), (''b'', [edge_to ''b'' ''c''])]\<rparr>"

definition graph_chain_permuted :: "unit content_node graph" where
  "graph_chain_permuted =
     \<lparr>Nodes = [(''c'', content_of ''c'' [] ''leaf''),
               (''a'', content_of ''a'' [(''n'', VInt 1), (''dep'', VString ''b'')] ''see b''),
               (''b'', content_of ''b'' [(''dep'', VString ''c'')] ''see c'')],
      Edges = [(''b'', [edge_to ''b'' ''c'']), (''a'', [edge_to ''a'' ''b''])]\<rparr>"

definition graph_cycle :: "unit content_node graph" where
  "graph_cycle =
     \<lparr>Nodes = [(''b'', content_of ''b'' [] ''''), (''a'', content_of ''a'' [] ''''),
               (''d'', content_of ''d'' [] ''''), (''c'', content_of ''c'' [] '''')],
      Edges = [(''a'', [edge_to ''a'' ''b'']), (''b'', [edge_to ''b'' ''c'']),
               (''c'', [edge_to ''c'' ''a''])]\<rparr>"

definition graph_ties :: "unit content_node graph" where
  "graph_ties =
     \<lparr>Nodes = [(''b'', content_of ''b'' [] ''''), (''a'', content_of ''a'' [] ''''),
               (''0'', content_of ''0'' [] '''')],
      Edges = [(''0'', [edge_to ''0'' ''b''])]\<rparr>"

definition graph_flat :: "unit content_node graph" where
  "graph_flat =
     \<lparr>Nodes = [(''b'', content_of ''b'' [] ''''), (''c'', content_of ''c'' [] ''''),
               (''a'', content_of ''a'' [] '''')],
      Edges = []\<rparr>"

section \<open>Properties of the build command\<close>

text \<open>
  C9. With at least one argument \<open>Complete\<close> succeeds, sets \<open>RootDir\<close> to the first
  argument, keeps a non-empty \<open>Output\<close> and defaults an empty one to
  \<open>client-workspace\<close>; it returns an error only for the empty argument list.
\<close>

theorem Complete_sets_root_and_output:
  "(args \<noteq> [] \<longrightarrow>
      fst (Complete opts args) = None \<and>
      RootDir (snd (Complete opts args)) = hd args \<and>
      (Output opts \<noteq> '''' \<longrightarrow> Output (snd (Complete opts args)) = Output opts) \<and>
      (Output opts = '''' \<longrightarrow> Output (snd (Complete opts args)) = ''client-workspace'')) \<and>
   (fst (Complete opts args) \<noteq> None \<longleftrightarrow> args = [])"
  by (cases args) (simp_all add: Complete_def Let_def)

theorem Complete_sets_root_and_output_witness:
  "fst (Complete \<lparr>Destination = '''', RootDir = '''', Insecure = False, PlainHTTP = False,
                  Configs = [], Output = '''', Push = False\<rparr> [''dir'']) = None \<and>
   RootDir (snd (Complete \<lparr>Destination = '''', RootDir = '''', Insecure = False, PlainHTTP = False,
                  Configs = [], Output = '''', Push = False\<rparr> [''dir''])) = ''dir'' \<and>
   Output (snd (Complete \<lparr>Destination = '''', RootDir = '''', Insecure = False, PlainHTTP = False,
                  Configs = [], Output = '''', Push = False\<rparr> [''dir''])) = ''client-workspace'' \<and>
   Output (snd (Complete \<lparr>Destination = '''', RootDir = '''', Insecure = False, PlainHTTP = False,
                  Configs = [], Output = ''out'', Push = False\<rparr> [''dir'', ''x''])) = ''out'' \<and>
   fst (Complete \<lparr>Destination = '''', RootDir = '''', Insecure = False, PlainHTTP = False,
                  Configs = [], Output = ''out'', Push = False\<rparr> []) \<noteq> None"
  using Complete_sets_root_and_output
          [of "[''dir'']" "\<lparr>Destination = '''', RootDir = '''', Insecure = False, PlainHTTP = False,
                  Configs = [], Output = '''', Push = False\<rparr>"]
        Complete_sets_root_and_output
          [of "[''dir'', ''x'']" "\<lparr>Destination = '''', RootDir = '''', Insecure = False,
                  PlainHTTP = False, Configs = [], Output = ''out'', Push = False\<rparr>"]
        Complete_sets_root_and_output
          [of "[]" "\<lparr>Destination = '''', RootDir = '''', Insecure = False,
                  PlainHTTP = False, Configs = [], Output = ''out'', Push = False\<rparr>"]
  by simp

text \<open>
  C10. \<open>Validate\<close> returns an error whenever \<open>Push\<close> is set and \<open>Destination\<close> is
  empty, whatever the other fields and the file system say; without \<open>Push\<close> the empty
  \<open>Destination\<close> plays no part: the result is then decided by the directory check alone.
\<close>

theorem Validate_push_needs_destination:
  "(Push opts \<and> Destination opts = '''' \<longrightarrow> Validate stat opts \<noteq> None) \<and>
   (\<not> Push opts \<longrightarrow> (Validate stat opts \<noteq> None \<longleftrightarrow> stat (RootDir opts) \<noteq> None)) \<and>
   (\<not> Push opts \<longrightarrow> Validate stat opts = Validate stat (opts\<lparr>Destination := ''''\<rparr>))"
  by (simp add: Validate_def split: option.splits)

theorem Validate_push_needs_destination_witness:
  "Validate (\<lambda>p. None) \<lparr>Destination = '''', RootDir = ''dir'', Insecure = False, PlainHTTP = False,
                  Configs = [], Output = ''out'', Push = True\<rparr> \<noteq> None \<and>
   Validate (\<lambda>p. None) \<lparr>Destination = '''', RootDir = ''dir'', Insecure = False, PlainHTTP = False,
                  Configs = [], Output = ''out'', Push = False\<rparr> = None"
  using Validate_push_needs_destination
          [of "\<lparr>Destination = '''', RootDir = ''dir'', Insecure = False, PlainHTTP = False,
                  Configs = [], Output = ''out'', Push = True\<rparr>" "\<lambda>p. None"]
        Validate_push_needs_destination
          [of "\<lparr>Destination = '''', RootDir = ''dir'', Insecure = False, PlainHTTP = False,
                  Configs = [], Output = ''out'', Push = False\<rparr>" "\<lambda>p. None"]
  by simp

section \<open>Properties serialization\<close>

lemma sorted_keys_props:
  "sorted (sorted_keys m)" "distinct (sorted_keys m)" "set (sorted_keys m) = fst ` set m"
  by (simp_all add: sorted_keys_def)

text \<open>The model reproduces the expected output of \<^verbatim>\<open>TestProperties_MarshalJSON\<close>.\<close>

lemma MarshalJSON_test_vector:
  "MarshalJSON test_props =
     JObject
       [(''core-descriptor'',
         JObject
           [(''id'', JString ''id''), (''name'', JString ''''), (''version'', JString ''''),
            (''type'', JString ''''), (''foundBy'', JString ''''), (''locations'', JNull),
            (''licenses'', JNull), (''language'', JString ''''), (''cpes'', JNull),
            (''purl'', JString '''')]),
        (''core-link'',
         JObject
           [(''registryHint'', JString ''test''), (''namespaceHint'', JString ''namespace''),
            (''transitive'', JBool False)]),
        (''test'', JObject [(''name'', JString ''test''), (''size'', JInt 2)])]"
  by (simp add: MarshalJSON_def test_props_def zero_descriptor_attributes_def
      descriptor_attributes_json_def link_attributes_json_def strings_json_def sorted_keys_def
      attribute_set_json_def)

text \<open>
  C1. The serialization of any Properties value is an object whose keys are
  \<open>core-descriptor\<close>, \<open>core-link\<close>, then the names of the other attribute sets in
  ascending lexicographic order, each once; when the descriptor or link attributes are
  absent (nil) or empty (the zero value), their keys are still there, with the zero-value
  objects.
\<close>

theorem MarshalJSON_fixed_key_order:
  "object_keys (MarshalJSON p) = ''core-descriptor'' # ''core-link'' # sorted_keys (Others p) \<and>
   sorted (sorted_keys (Others p)) \<and> distinct (sorted_keys (Others p)) \<and>
   set (sorted_keys (Others p)) = fst ` set (Others p) \<and>
   (Descriptor p = None \<or> Descriptor p = Some zero_descriptor_attributes \<longrightarrow>
      object_get (MarshalJSON p) ''core-descriptor'' =
        Some (JObject
           [(''id'', JString ''''), (''name'', JString ''''), (''version'', JString ''''),
            (''type'', JString ''''), (''foundBy'', JString ''''), (''locations'', JNull),
            (''licenses'', JNull), (''language'', JString ''''), (''cpes'', JNull),
            (''purl'', JString '''')])) \<and>
   (Link p = None \<or> Link p = Some zero_link_attributes \<longrightarrow>
      object_get (MarshalJSON p) ''core-link'' =
        Some (JObject
           [(''registryHint'', JString ''''), (''namespaceHint'', JString ''''),
            (''transitive'', JBool False)]))"
  by (auto simp: MarshalJSON_def sorted_keys_props zero_descriptor_attributes_def
      zero_link_attributes_def descriptor_attributes_json_def link_attributes_json_def
      strings_json_def comp_def)

theorem MarshalJSON_fixed_key_order_witness:
  "object_keys (MarshalJSON empty_props) = [''core-descriptor'', ''core-link'', ''a'', ''b''] \<and>
   object_get (MarshalJSON empty_props) ''core-descriptor'' =
        Some (JObject
           [(''id'', JString ''''), (''name'', JString ''''), (''version'', JString ''''),
            (''type'', JString ''''), (''foundBy'', JString ''''), (''locations'', JNull),
            (''licenses'', JNull), (''language'', JString ''''), (''cpes'', JNull),
            (''purl'', JString '''')]) \<and>
   object_get (MarshalJSON empty_props) ''core-link'' =
        Some (JObject
           [(''registryHint'', JString ''''), (''namespaceHint'', JString ''''),
            (''transitive'', JBool False)])"
  using MarshalJSON_fixed_key_order [of empty_props]
  by (simp add: empty_props_def sorted_keys_def)

section \<open>Graph construction in the build command\<close>


text \<open>
  C3, as the code has it. When the selection of a parser (\<^verbatim>\<open>parser.ByContentType\<close>) rejects
  the content of a file with an error of the \<open>ErrInvalidFormat\<close> class, the node is added
  to the graph without links and the build goes on. Any other error of the selection, and
  every error of the parser's \<^verbatim>\<open>GetLinkableData\<close> (of whatever class), aborts the build and
  is returned to the caller.
\<close>

theorem add_node_parser_errors:
  assumes "readObject path = Inr buf"
  shows
    "(byContentType path buf = Inl err \<and> errors_As_ErrInvalidFormat err \<longrightarrow>
        add_node readObject byContentType fileIndex g path =
          Inr (g\<lparr>Nodes := AList.update path \<lparr>Name = path, Template = None, Links = []\<rparr> (Nodes g)\<rparr>)) \<and>
     (byContentType path buf = Inl err \<and> \<not> errors_As_ErrInvalidFormat err \<longrightarrow>
        add_node readObject byContentType fileIndex g path = Inl err \<and>
        add_nodes readObject byContentType fileIndex g (path # paths) = Inl err) \<and>
     (byContentType path buf = Inr p \<and> p (tFunc fileIndex) buf = Inl err \<longrightarrow>
        add_node readObject byContentType fileIndex g path = Inl err \<and>
        add_nodes readObject byContentType fileIndex g (path # paths) = Inl err)"
  using assms by (simp add: add_node_def NewNode_def)

theorem add_node_parser_errors_witness:
  "read_braces ''a.bin'' = Inr ''{}'' \<and>
   add_node read_braces select_nothing [''a.bin'', ''b.bin''] NewGraph ''a.bin'' =
     Inr \<lparr>Nodes = [(''a.bin'', \<lparr>Name = ''a.bin'', Template = None, Links = []\<rparr>)], Edges = []\<rparr> \<and>
   add_nodes read_braces select_nothing [''a.bin'', ''b.bin''] NewGraph [''b.bin'', ''a.bin''] =
     Inl (ErrOther ''boom'') \<and>
   add_nodes read_braces select_rejecting_parser [''a.json''] NewGraph [''a.json''] =
     Inl (ErrInvalidFormat ''a.json'')"
  using add_node_parser_errors [of read_braces "''a.bin''" "''{}''" select_nothing
          "ErrInvalidFormat ''a.bin''" "[''a.bin'', ''b.bin'']" NewGraph]
        add_node_parser_errors [of read_braces "''b.bin''" "''{}''" select_nothing
          "ErrOther ''boom''" "[''a.bin'', ''b.bin'']" NewGraph "[''a.bin'']"]
        add_node_parser_errors [of read_braces "''a.json''" "''{}''" select_rejecting_parser
          "ErrInvalidFormat ''a.json''" "[''a.json'']" NewGraph "[]" parser_rejecting]
  by (simp add: read_braces_def select_nothing_def select_rejecting_parser_def
      parser_rejecting_def NewGraph_def)

text \<open>
  C3 as stated fails where the rejection comes from the parser's \<^verbatim>\<open>GetLinkableData\<close>: an
  error of the \<open>ErrInvalidFormat\<close> class is then returned and the build fails.
\<close>

theorem add_node_invalid_format_counterexample:
  "errors_As_ErrInvalidFormat (ErrInvalidFormat ''a.json'') \<and>
   add_node read_braces select_rejecting_parser [''a.json''] NewGraph ''a.json'' =
     Inl (ErrInvalidFormat ''a.json'')"
  by (simp add: add_node_def read_braces_def select_rejecting_parser_def parser_rejecting_def)







section \<open>Properties of the content link graph\<close>

text \<open>
  C7, as the specified order of the checks has it. When either endpoint is absent from the
  nodes of the graph, \<open>AddEdge\<close> fails with \<open>ErrNodeNotFound\<close> and the graph is
  unchanged; for a Name \<open>x\<close> that is a node of the graph, \<open>AddEdge x x\<close> fails with
  \<open>ErrSelfReference\<close>, the graph unchanged as well.
\<close>

theorem AddEdge_rejects_absent_and_self:
  "(\<not> has_node g from \<or> \<not> has_node g to \<longrightarrow>
      AddEdge g from to lp = (Some (ErrNodeNotFound (if has_node g from then to else from)), g)) \<and>
   (has_node g x \<longrightarrow> AddEdge g x x lp = (Some (ErrSelfReference x), g))"
  by (simp add: AddEdge_def)

theorem AddEdge_rejects_absent_and_self_witness:
  "\<not> has_node graph_ab ''zz'' \<and> has_node graph_ab ''a'' \<and>
   AddEdge graph_ab ''a'' ''zz'' zero_link_attributes = (Some (ErrNodeNotFound ''zz''), graph_ab) \<and>
   AddEdge graph_ab ''a'' ''a'' zero_link_attributes = (Some (ErrSelfReference ''a''), graph_ab)"
  using AddEdge_rejects_absent_and_self [of graph_ab "''a''" "''zz''" zero_link_attributes "''a''"]
  by (simp add: has_node_def graph_ab_def)

text \<open>
  C7 as stated asks for two different errors when \<open>x\<close> is not a node: on the empty graph
  \<open>AddEdge x x\<close> fails with \<open>ErrNodeNotFound\<close>, not with \<open>ErrSelfReference\<close>.
\<close>

theorem AddEdge_self_reference_counterexample:
  "fst (AddEdge (NewGraph :: unit node graph) ''x'' ''x'' zero_link_attributes) =
     Some (ErrNodeNotFound ''x'') \<and>
   fst (AddEdge (NewGraph :: unit node graph) ''x'' ''x'' zero_link_attributes) \<noteq>
     Some (ErrSelfReference ''x'')"
  by (simp add: AddEdge_def has_node_def NewGraph_def)

section \<open>Correctness of the topological order\<close>

subsection \<open>Basic facts\<close>

lemma has_node_iff: "has_node g n \<longleftrightarrow> n \<in> node_names g"
  by (auto simp: has_node_def node_names_def dest: map_of_SomeD weak_map_of_SomeI intro: rev_image_eqI)

lemma set_targets: "set (targets g n) = edge_rel g `` {n}"
  by (auto simp: targets_def edge_rel_def)

lemma distinct_targets: "distinct (targets g n)"
  by (simp add: targets_def)

lemma in_progress_enters [simp]: "in_progress (map Enter ts @ work) = in_progress work"
  by (induction ts) simp_all

lemma entered_enters [simp]: "entered (map Enter ts @ work) = set ts \<union> entered work"
  by (induction ts) auto

lemma leaves_ok_mono:
  "leaves_ok E colors S work \<Longrightarrow>
   (\<And>t. colors t = Done \<or> t \<in> S \<Longrightarrow> colors' t = Done \<or> t \<in> S') \<Longrightarrow>
   leaves_ok E colors' S' work"
proof (induction E colors S work arbitrary: S' rule: leaves_ok.induct)
  case (1 E colors seen)
  then show ?case by simp
next
  case (2 E colors seen t work)
  have "leaves_ok E colors' (insert t S') work"
  proof (rule "2.IH")
    show "leaves_ok E colors (insert t seen) work" using "2.prems"(1) by simp
    show "colors' u = Done \<or> u \<in> insert t S'" if "colors u = Done \<or> u \<in> insert t seen" for u
      using that "2.prems"(2)[of u] by auto
  qed
  then show ?case by simp
next
  case (3 E colors seen n work)
  have "leaves_ok E colors' (insert n S') work"
  proof (rule "3.IH")
    show "leaves_ok E colors (insert n seen) work" using "3.prems"(1) by simp
    show "colors' u = Done \<or> u \<in> insert n S'" if "colors u = Done \<or> u \<in> insert n seen" for u
      using that "3.prems"(2)[of u] by auto
  qed
  moreover have "\<forall>t. (n, t) \<in> E \<longrightarrow> colors' t = Done \<or> t \<in> S'"
    using "3.prems" by auto
  ultimately show ?case by simp
qed

lemma leaves_ok_enters:
  "leaves_ok E colors S (map Enter ts @ work) = leaves_ok E colors (S \<union> set ts) work"
  by (induction ts arbitrary: S) simp_all

lemma parents_ok_enters:
  "parents_ok E (map Enter ts @ work) = ((\<forall>t \<in> set ts. under_top E work t) \<and> parents_ok E work)"
  by (induction ts) (auto simp: under_top_def)

lemma index_of_less: "index_of xs x < length xs \<longleftrightarrow> x \<in> set xs"
  by (induction xs) auto

lemma index_of_snoc:
  "index_of (xs @ [n]) x = (if x \<in> set xs then index_of xs x else if x = n then length xs else Suc (length xs))"
  by (induction xs) auto

lemma topological_snoc:
  assumes "topological E order" and "n \<notin> set order" and "E `` {n} \<subseteq> set order"
  shows "topological E (order @ [n])"
  unfolding topological_def
proof (clarify)
  fix a b assume ab: "(a, b) \<in> E" and a: "a \<in> set (order @ [n])"
  show "b \<in> set (order @ [n]) \<and> index_of (order @ [n]) b < index_of (order @ [n]) a"
  proof (cases "a \<in> set order")
    case True
    then have "b \<in> set order \<and> index_of order b < index_of order a"
      using assms(1) ab by (auto simp: topological_def)
    then show ?thesis using True by (simp add: index_of_snoc)
  next
    case False
    then have "a = n" using a by simp
    then have "b \<in> set order" using ab assms(3) by auto
    then show ?thesis using False \<open>a = n\<close> by (simp add: index_of_snoc index_of_less)
  qed
qed

subsection \<open>The invariant is kept by every step\<close>

lemma dfs_inv_leave:
  assumes "dfs_inv g (Leave n # work) colors order"
  shows "dfs_inv g work (colors(n := Done)) (order @ [n])"
proof -
  let ?E = "edge_rel g"
  from assms have
    ip: "\<forall>m. colors m = InProgress \<longleftrightarrow> m \<in> set (n # in_progress work)" and
    dn: "\<forall>m. colors m = Done \<longleftrightarrow> m \<in> set order" and
    d: "distinct order" "distinct (n # in_progress work)" and
    sub: "set order \<subseteq> node_names g" "set (n # in_progress work) \<subseteq> node_names g"
      "entered work \<subseteq> node_names g" and
    cov: "\<forall>m \<in> node_names g. colors m = Unvisited \<longrightarrow> m \<in> entered work" and
    topo: "topological ?E order" and
    lv: "leaves_ok ?E colors {} (Leave n # work)" and
    par: "parents_ok ?E (Leave n # work)"
    by (simp_all add: dfs_inv_def)
  have n_ip: "colors n = InProgress" using ip by simp
  then have n_notin: "n \<notin> set order" using spec [OF dn, of n] by simp
  have tg: "?E `` {n} \<subseteq> set order" using lv dn by auto
  have 1: "\<forall>m. (colors(n := Done)) m = InProgress \<longleftrightarrow> m \<in> set (in_progress work)"
    using ip d(2) by auto
  have 2: "\<forall>m. (colors(n := Done)) m = Done \<longleftrightarrow> m \<in> set (order @ [n])"
    using dn by auto
  have 3: "distinct (order @ [n])" using d(1) n_notin by simp
  have 8: "\<forall>m \<in> node_names g. (colors(n := Done)) m = Unvisited \<longrightarrow> m \<in> entered work"
    using cov by (auto split: if_splits)
  have 9: "topological ?E (order @ [n])"
    by (rule topological_snoc [OF topo n_notin tg])
  have 10: "leaves_ok ?E (colors(n := Done)) {} work"
  proof (rule leaves_ok_mono)
    show "leaves_ok ?E colors {n} work" using lv by simp
  qed auto
  show ?thesis
    unfolding dfs_inv_def
    using 1 2 3 8 9 10 d sub par by simp
qed

lemma dfs_inv_done:
  assumes "dfs_inv g (Enter n # work) colors order" and "colors n = Done"
  shows "dfs_inv g work colors order"
proof -
  let ?E = "edge_rel g"
  from assms(1) have
    cov: "\<forall>m \<in> node_names g. colors m = Unvisited \<longrightarrow> m \<in> insert n (entered work)" and
    lv: "leaves_ok ?E colors {n} work"
    by (simp_all add: dfs_inv_def)
  have 8: "\<forall>m \<in> node_names g. colors m = Unvisited \<longrightarrow> m \<in> entered work"
    using cov assms(2) by auto
  have 10: "leaves_ok ?E colors {} work"
    by (rule leaves_ok_mono [OF lv]) (use assms(2) in auto)
  show ?thesis
    using assms(1) 8 10 unfolding dfs_inv_def by simp
qed

lemma dfs_inv_enter:
  assumes "dfs_inv g (Enter n # work) colors order" and "colors n = Unvisited"
    and "has_node g n" and "graph_inv g"
  shows "dfs_inv g (map Enter (targets g n) @ Leave n # work) (colors(n := InProgress)) order"
proof -
  let ?E = "edge_rel g"
  let ?c = "colors(n := InProgress)"
  from assms(1) have
    ip: "\<forall>m. colors m = InProgress \<longleftrightarrow> m \<in> set (in_progress work)" and
    dn: "\<forall>m. colors m = Done \<longleftrightarrow> m \<in> set order" and
    d: "distinct order" "distinct (in_progress work)" and
    sub: "set order \<subseteq> node_names g" "set (in_progress work) \<subseteq> node_names g"
      "entered work \<subseteq> node_names g" and
    cov: "\<forall>m \<in> node_names g. colors m = Unvisited \<longrightarrow> m \<in> insert n (entered work)" and
    topo: "topological ?E order" and
    lv: "leaves_ok ?E colors {n} work" and
    par: "under_top ?E work n" "parents_ok ?E work"
    by (simp_all add: dfs_inv_def)
  have n: "n \<in> node_names g" using assms(3) by (simp add: has_node_iff)
  have tg: "set (targets g n) \<subseteq> node_names g"
    using assms(4) by (auto simp: set_targets graph_inv_def)
  have 1: "\<forall>m. ?c m = InProgress \<longleftrightarrow> m \<in> set (n # in_progress work)"
    using ip by auto
  have 2: "\<forall>m. ?c m = Done \<longleftrightarrow> m \<in> set order"
    using dn spec [OF dn, of n] assms(2) by auto
  have 4: "distinct (n # in_progress work)"
    using d(2) spec [OF ip, of n] assms(2) by simp
  have 8: "\<forall>m \<in> node_names g. ?c m = Unvisited \<longrightarrow> m \<in> set (targets g n) \<union> entered work"
    using cov by (auto split: if_splits)
  have "leaves_ok ?E ?c (insert n (set (targets g n))) work"
    by (rule leaves_ok_mono [OF lv]) (use assms(2) in auto)
  then have 10: "leaves_ok ?E ?c {} (map Enter (targets g n) @ Leave n # work)"
    by (simp add: leaves_ok_enters set_targets)
  have 11: "parents_ok ?E (map Enter (targets g n) @ Leave n # work)"
    using par by (simp add: parents_ok_enters under_top_def set_targets)
  show ?thesis
    unfolding dfs_inv_def
    using 1 2 4 8 10 11 d(1) sub n tg topo by simp
qed

lemma dfs_inv_initial:
  "dfs_inv g (map Enter (sorted_keys (Nodes g))) (\<lambda>n. Unvisited) []"
proof -
  have "leaves_ok (edge_rel g) (\<lambda>n. Unvisited) {} (map Enter (sorted_keys (Nodes g)) @ [])"
    unfolding leaves_ok_enters by simp
  moreover have "parents_ok (edge_rel g) (map Enter (sorted_keys (Nodes g)) @ [])"
    unfolding parents_ok_enters by (simp add: under_top_def)
  moreover have "in_progress (map Enter (sorted_keys (Nodes g)) @ []) = []"
    unfolding in_progress_enters by simp
  moreover have "entered (map Enter (sorted_keys (Nodes g)) @ []) = node_names g"
    unfolding entered_enters by (simp add: sorted_keys_props node_names_def)
  ultimately show ?thesis
    by (simp add: dfs_inv_def topological_def)
qed

lemma dfs_inv_final:
  assumes "dfs_inv g [] colors order"
  shows "distinct order \<and> set order = node_names g \<and> topological (edge_rel g) order"
proof -
  have "m \<in> set order" if "m \<in> node_names g" for m
  proof (cases "colors m")
    case Unvisited
    then show ?thesis using assms that by (auto simp: dfs_inv_def)
  next
    case InProgress
    then show ?thesis using assms by (auto simp: dfs_inv_def)
  next
    case Done
    then show ?thesis using assms by (auto simp: dfs_inv_def)
  qed
  then show ?thesis using assms by (auto simp: dfs_inv_def)
qed

lemma dfs_inv_has_node:
  assumes "dfs_inv g (Enter n # work) colors order"
  shows "has_node g n"
  using assms by (simp add: dfs_inv_def has_node_iff)

subsection \<open>Cycles\<close>

lemma parents_ok_chain:
  "parents_ok E work \<Longrightarrow> successively (\<lambda>x y. (y, x) \<in> E) (in_progress work)"
proof (induction work)
  case Nil
  then show ?case by simp
next
  case (Cons item work)
  then show ?case
    by (cases item) (auto simp: successively_Cons under_top_def split: list.splits)
qed

lemma dfs_inv_cycle:
  assumes "dfs_inv g (Enter t # work) colors order" and "colors t = InProgress"
  shows "is_cycle (edge_rel g) (cycle_members t work) \<and> distinct (cycle_members t work) \<and>
         set (cycle_members t work) \<subseteq> node_names g"
proof -
  let ?E = "edge_rel g"
  let ?S = "in_progress work"
  from assms(1) have
    ip: "\<forall>m. colors m = InProgress \<longleftrightarrow> m \<in> set ?S" and
    d: "distinct ?S" and sub: "set ?S \<subseteq> node_names g" and
    top: "under_top ?E work t" and par: "parents_ok ?E work"
    by (simp_all add: dfs_inv_def)
  have "t \<in> set ?S" using spec [OF ip, of t] assms(2) by simp
  then obtain ys zs where S: "?S = ys @ t # zs" and t: "t \<notin> set ys"
    by (auto dest: split_list_first)
  have tw: "takeWhile (\<lambda>m. m \<noteq> t) ?S = ys"
    unfolding S using t by (auto simp: takeWhile_tail)
  have cm: "cycle_members t work = rev (ys @ [t])"
    by (simp add: cycle_members_def tw)
  have "successively (\<lambda>x y. (y, x) \<in> ?E) ((ys @ [t]) @ zs)"
    using parents_ok_chain [OF par] S by simp
  then have ch: "successively (\<lambda>x y. (y, x) \<in> ?E) (ys @ [t])"
    unfolding successively_append_iff by blast
  have closing: "(last (cycle_members t work), hd (cycle_members t work)) \<in> ?E"
  proof (cases ys)
    case Nil
    then show ?thesis using top S by (simp add: cm under_top_def)
  next
    case (Cons y ys')
    then show ?thesis using top S by (simp add: cm under_top_def last_rev)
  qed
  have "distinct (ys @ [t])" using d t unfolding S by simp
  moreover have "set (ys @ [t]) \<subseteq> node_names g" using sub unfolding S by auto
  moreover have "successively (\<lambda>a b. (a, b) \<in> ?E) (rev (ys @ [t]))"
    unfolding successively_rev using ch .
  ultimately show ?thesis
    using closing unfolding is_cycle_def cm by simp
qed

lemma successively_rtrancl:
  "successively (\<lambda>a b. (a, b) \<in> E) ns \<Longrightarrow> ns \<noteq> [] \<Longrightarrow> (hd ns, last ns) \<in> E\<^sup>*"
proof (induction ns)
  case Nil
  then show ?case by simp
next
  case (Cons a ns)
  show ?case
  proof (cases ns)
    case Nil
    then show ?thesis by simp
  next
    case (Cons b ms)
    then have "(a, b) \<in> E" "(hd ns, last ns) \<in> E\<^sup>*"
      using Cons.prems Cons.IH by (auto simp: successively_Cons)
    then show ?thesis using Cons by (auto intro: converse_rtrancl_into_rtrancl)
  qed
qed

lemma is_cycle_not_acyclic:
  assumes "is_cycle E ns"
  shows "(hd ns, hd ns) \<in> E\<^sup>+" and "\<not> acyclic E"
proof -
  have "(hd ns, last ns) \<in> E\<^sup>*" "(last ns, hd ns) \<in> E"
    using assms successively_rtrancl [of E ns] by (auto simp: is_cycle_def)
  then show "(hd ns, hd ns) \<in> E\<^sup>+" by (rule rtrancl_into_trancl1)
  then show "\<not> acyclic E" by (auto simp: acyclic_def)
qed


subsection \<open>The result of the traversal\<close>

lemma dfs_result:
  assumes "graph_inv g" and "dfs_inv g work colors order"
  shows "(\<exists>order'. dfs g work colors order = Inr order' \<and> topological_order_of g order') \<or>
         (\<exists>ns. dfs g work colors order = Inl (ErrCycleDetected ns) \<and>
               is_cycle (edge_rel g) ns \<and> distinct ns \<and> set ns \<subseteq> node_names g)"
  using assms
proof (induction g work colors order rule: dfs.induct)
  case (1 g colors order)
  then show ?case using dfs_inv_final [of g colors order]
    by (simp add: topological_order_of_def)
next
  case (2 g n work colors order)
  show ?case
    unfolding dfs.simps by (rule "2.IH" [OF "2.prems"(1) dfs_inv_leave [OF "2.prems"(2)]])
next
  case (3 g n work colors order)
  show ?case
  proof (cases "colors n")
    case Unvisited
    have h: "has_node g n" by (rule dfs_inv_has_node [OF "3.prems"(2)])
    have nh: "\<not> \<not> has_node g n" using h by simp
    have eq: "dfs g (Enter n # work) colors order =
        dfs g (map Enter (targets g n) @ Leave n # work) (colors(n := InProgress)) order"
      using h Unvisited by simp
    show ?thesis
      unfolding eq
      by (rule "3.IH"(1) [OF Unvisited nh "3.prems"(1)
          dfs_inv_enter [OF "3.prems"(2) Unvisited h "3.prems"(1)]])
  next
    case InProgress
    then show ?thesis using dfs_inv_cycle [OF "3.prems"(2) InProgress] by simp
  next
    case Done
    have eq: "dfs g (Enter n # work) colors order = dfs g work colors order"
      using Done by simp
    show ?thesis
      unfolding eq
      by (rule "3.IH"(2) [OF Done "3.prems"(1) dfs_inv_done [OF "3.prems"(2) Done]])
  qed
qed

lemma TopologicalOrder_result:
  assumes "graph_inv g"
  shows "(\<exists>order. TopologicalOrder g = Inr order \<and> topological_order_of g order) \<or>
         (\<exists>ns. TopologicalOrder g = Inl (ErrCycleDetected ns) \<and>
               is_cycle (edge_rel g) ns \<and> distinct ns \<and> set ns \<subseteq> node_names g)"
  unfolding TopologicalOrder_def by (rule dfs_result [OF assms dfs_inv_initial])


lemma TopologicalOrder_acyclic:
  assumes "graph_inv g" and "acyclic (edge_rel g)"
  shows "\<exists>order. TopologicalOrder g = Inr order \<and> topological_order_of g order"
  using TopologicalOrder_result [OF assms(1)] is_cycle_not_acyclic(2) assms(2) by blast


subsection \<open>Ties\<close>











subsection \<open>Independence of the representation\<close>


subsection \<open>The graph invariant\<close>

lemma graph_inv_NewGraph: "graph_inv NewGraph"
  by (simp add: graph_inv_def edge_rel_def out_edges_def NewGraph_def)

lemma out_edges_update:
  "out_edges (g\<lparr>Edges := AList.update k es (Edges g)\<rparr>) a = (if a = k then es else out_edges g a)"
  by (simp add: out_edges_def update_conv')

lemma graph_inv_AddEdge:
  assumes "graph_inv g" and "AddEdge g from to lp = (None, g')"
  shows "graph_inv g'"
proof -
  from assms(2) have ft: "has_node g from" "has_node g to" and
    g': "g' = g\<lparr>Edges := AList.update from
                 (out_edges g from @ [\<lparr>From = from, To = to, LinkProperties = lp\<rparr>]) (Edges g)\<rparr>"
    by (auto simp: AddEdge_def split: if_splits)
  have names: "node_names g' = node_names g" by (simp add: g' node_names_def)
  have "edge_rel g' \<subseteq> insert (from, to) (edge_rel g)"
    unfolding g' edge_rel_def out_edges_update by (auto split: if_splits)
  then show ?thesis
    using assms(1) ft unfolding graph_inv_def names has_node_iff by blast
qed

subsection \<open>Names and edges determine the order\<close>





subsection \<open>The fixtures\<close>

lemmas fixture_defs = graph_chain_def graph_chain_permuted_def graph_cycle_def graph_ties_def
  graph_flat_def
  content_of_def edge_to_def no_props_def test_engine_def test_digest_def test_media_type_def
  test_encode_def test_substitute_def zero_link_attributes_def

lemmas eval_defs = TopologicalOrder_def sorted_keys_def targets_def out_edges_def has_node_def
  cycle_members_def Resolve_def resolve_node_def link_props_def
















subsection \<open>Order and cycles\<close>






section \<open>The resolution\<close>

text \<open>The end-to-end scenario of section 8 of the spec, with the contents of the fixture.\<close>

lemma chain_resolved:
  "map_sum id ResolvedContent (Resolve test_engine graph_chain) =
     Inr [(''c'', ''leaf''), (''b'', ''see <sha:fael>''), (''a'', ''see <sha:>leaf:ahs< ees>'')]"
  by (simp add: fixture_defs eval_defs)

subsection \<open>The resolution succeeds on acyclic graphs\<close>

lemma index_of_append_less: "index_of (pre @ rest) t < length pre \<longleftrightarrow> t \<in> set pre"
  by (induction pre) auto

lemma index_of_append_at: "n \<notin> set pre \<Longrightarrow> index_of (pre @ n # post) n = length pre"
  by (induction pre) auto

lemma topological_targets_before:
  assumes "topological E (pre @ n # post)" and "n \<notin> set pre"
  shows "E `` {n} \<subseteq> set pre"
proof
  fix t assume "t \<in> E `` {n}"
  then have "(n, t) \<in> E" by simp
  then have "index_of (pre @ n # post) t < index_of (pre @ n # post) n"
    using assms(1) by (auto simp: topological_def)
  then have "index_of (pre @ n # post) t < length pre"
    by (simp add: index_of_append_at [OF assms(2)])
  then show "t \<in> set pre" by (simp add: index_of_append_less)
qed

lemma resolve_node_ok:
  assumes "has_node g n" and "set (targets g n) \<subseteq> fst ` set descs"
  shows "\<exists>content d. resolve_node eng g descs n = Inr (content, d)"
proof -
  obtain node where node: "map_of (Nodes g) n = Some node"
    using assms(1) by (auto simp: has_node_def)
  have "map_of descs t \<noteq> None" if "t \<in> set (targets g n)" for t
    using that assms(2) by (auto simp: map_of_eq_None_iff)
  then have "filter (\<lambda>t. map_of descs t = None) (targets g n) = []"
    by (simp add: filter_empty_conv)
  then show ?thesis
    by (simp add: resolve_node_def node Let_def)
qed

lemma resolve_nodes_ok:
  assumes "\<And>pre n post. names = pre @ n # post \<Longrightarrow>
             has_node g n \<and> set (targets g n) \<subseteq> fst ` set (Descriptors res) \<union> set pre"
  shows "\<exists>res'. resolve_nodes eng g res names = Inr res' \<and>
           map fst (Descriptors res') = map fst (Descriptors res) @ names \<and>
           map fst (ResolvedContent res') = map fst (ResolvedContent res) @ names"
  using assms
proof (induction names arbitrary: res)
  case Nil
  show ?case by simp
next
  case (Cons name names)
  have "has_node g name \<and> set (targets g name) \<subseteq> fst ` set (Descriptors res) \<union> set []"
    by (rule Cons.prems) simp
  then obtain content d where rn: "resolve_node eng g (Descriptors res) name = Inr (content, d)"
    using resolve_node_ok [of g name "Descriptors res" eng] by auto
  let ?res = "\<lparr>Descriptors = Descriptors res @ [(name, d)],
               ResolvedContent = ResolvedContent res @ [(name, content)]\<rparr>"
  have "\<exists>res'. resolve_nodes eng g ?res names = Inr res' \<and>
           map fst (Descriptors res') = map fst (Descriptors ?res) @ names \<and>
           map fst (ResolvedContent res') = map fst (ResolvedContent ?res) @ names"
  proof (rule Cons.IH)
    fix pre n post assume "names = pre @ n # post"
    then have "name # names = (name # pre) @ n # post" by simp
    then have "has_node g n \<and>
        set (targets g n) \<subseteq> fst ` set (Descriptors res) \<union> set (name # pre)"
      by (rule Cons.prems)
    then show "has_node g n \<and> set (targets g n) \<subseteq> fst ` set (Descriptors ?res) \<union> set pre"
      by auto
  qed
  then show ?case using rn by auto
qed

lemma Resolve_succeeds:
  assumes "graph_inv g" and "acyclic (edge_rel g)"
  shows "\<exists>order res. TopologicalOrder g = Inr order \<and> Resolve eng g = Inr res \<and>
           map fst (Descriptors res) = order \<and> map fst (ResolvedContent res) = order"
proof -
  obtain order where res: "TopologicalOrder g = Inr order" and top: "topological_order_of g order"
    using TopologicalOrder_acyclic [OF assms] by blast
  have d: "distinct order" and s: "set order = node_names g"
    and t: "topological (edge_rel g) order"
    using top by (simp_all add: topological_order_of_def)
  let ?res = "\<lparr>Descriptors = [], ResolvedContent = []\<rparr>"
  have "\<exists>res'. resolve_nodes eng g ?res order = Inr res' \<and>
           map fst (Descriptors res') = map fst (Descriptors ?res) @ order \<and>
           map fst (ResolvedContent res') = map fst (ResolvedContent ?res) @ order"
  proof (rule resolve_nodes_ok)
    fix pre n post assume o: "order = pre @ n # post"
    have "n \<in> node_names g" using s o by auto
    moreover have "n \<notin> set pre" using d o by simp
    then have "edge_rel g `` {n} \<subseteq> set pre"
      using topological_targets_before [of "edge_rel g" pre n post] t o by simp
    ultimately show "has_node g n \<and> set (targets g n) \<subseteq> fst ` set (Descriptors ?res) \<union> set pre"
      by (simp add: has_node_iff set_targets)
  qed
  then show ?thesis using res by (auto simp: Resolve_def)
qed

end
